theory Spec2Isabelle
  imports Complex_Main "HOL-Library.Monad_Syntax"
begin

section \<open>JavaScript values used by MinPQ.ts\<close>

text \<open>
  The class \<open>MinPQ<Key>\<close> of \<open>src/src/MinPQ.ts\<close> is embedded as it runs: TypeScript
  types are erased, so an array slot holds either a key or \<open>undefined\<close>
  (\<open>'k option\<close>, \<open>None\<close> for \<open>undefined\<close> and for a hole), an index is a JavaScript
  number, and \<open>/\<close> is the division of numbers, not of integers. Every index the class
  computes is a count halved finitely often, which a double represents exactly, so
  indices are rationals. Array lengths are assumed to stay below \<open>2^32\<close>.
\<close>

datatype error = Underflow | RangeError

text \<open>
  A comparator is a function of two run-time values, each a key or \<open>undefined\<close>, to a
  number; it is taken to return, and to depend on its arguments only. The class only ever
  tests its result for \<open>> 0\<close>. \<open>NaN\<close>, for which every such test is false, is what
  the comparator \<open>(a, b) => a - b\<close> of the demonstration script yields on \<open>undefined\<close>.
\<close>

datatype number = Num int | NaN

fun gt0 :: "number \<Rightarrow> bool" where
  "gt0 (Num x) = (0 < x)"
| "gt0 NaN = False"

fun le0 :: "number \<Rightarrow> bool" where
  "le0 (Num x) = (x \<le> 0)"
| "le0 NaN = False"

type_synonym 'k comparator = "'k option \<Rightarrow> 'k option \<Rightarrow> number"

text \<open>
  A JavaScript array: its indexed elements (the list's length is the array's \<open>length\<close>)
  and its other properties. A number is an array index when it is a non-negative
  integer; any other number names an ordinary property (\<open>pq[1.5]\<close> is the property
  \<open>"1.5"\<close>), which is \<open>undefined\<close> until assigned and never changes \<open>length\<close>.
\<close>

record 'k jsarray =
  elems :: "'k option list"
  props :: "(rat \<times> 'k option) list"

definition is_index :: "rat \<Rightarrow> bool" where
  "is_index i \<longleftrightarrow> 0 \<le> i \<and> of_int \<lfloor>i\<rfloor> = i"

definition alen :: "'k jsarray \<Rightarrow> nat" where
  "alen a = length (elems a)"

definition arr_get :: "'k jsarray \<Rightarrow> rat \<Rightarrow> 'k option" where
  "arr_get a i =
     (if is_index i then
        (if nat \<lfloor>i\<rfloor> < length (elems a) then elems a ! nat \<lfloor>i\<rfloor> else None)
      else (case map_of (props a) i of Some v \<Rightarrow> v | None \<Rightarrow> None))"

text \<open>An assignment past the end extends the array, leaving holes in between.\<close>

definition arr_set :: "'k jsarray \<Rightarrow> rat \<Rightarrow> 'k option \<Rightarrow> 'k jsarray" where
  "arr_set a i v =
     (if is_index i then
        (if nat \<lfloor>i\<rfloor> < length (elems a)
         then a\<lparr>elems := (elems a)[nat \<lfloor>i\<rfloor> := v]\<rparr>
         else a\<lparr>elems := elems a @ replicate (nat \<lfloor>i\<rfloor> - length (elems a)) None @ [v]\<rparr>)
      else a\<lparr>props := (i, v) # props a\<rparr>)"

text \<open>\<open>new Array(len)\<close> throws a RangeError unless \<open>len\<close> is a valid array length.\<close>

definition new_Array :: "rat \<Rightarrow> error + 'k jsarray" where
  "new_Array len =
     (if is_index len then Inr \<lparr>elems = replicate (nat \<lfloor>len\<rfloor>) None, props = []\<rparr>
      else Inl RangeError)"

text \<open>\<open>[...a]\<close>: a new array of the indexed elements of \<open>a\<close>; other properties are not copied.\<close>

definition spread :: "'k jsarray \<Rightarrow> 'k jsarray" where
  "spread a = \<lparr>elems = elems a, props = []\<rparr>"

section \<open>The private helpers\<close>

text \<open>
  \<open>greater\<close>, \<open>exch\<close>, \<open>swim\<close> and \<open>sink\<close> read and write only the array \<open>this.pq\<close>
  in place, and read \<open>this.comparator\<close> and \<open>this.n\<close>: the array is passed in and
  returned, the two fields are parameters. The loops are partial functions, so that a
  loop which never reaches its exit is the value \<open>None\<close>. The index of \<open>swim\<close> is a
  number, since \<open>k/2\<close> need not be an integer; \<open>sink\<close> is only ever started at the
  root and from there computes \<open>2*k\<close> and \<open>2*k + 1\<close>, so its index is a natural number.
\<close>

definition greater_pq :: "'k comparator \<Rightarrow> 'k jsarray \<Rightarrow> rat \<Rightarrow> rat \<Rightarrow> bool" where
  "greater_pq cmp a i j = gt0 (cmp (arr_get a i) (arr_get a j))"

definition exch :: "'k jsarray \<Rightarrow> rat \<Rightarrow> rat \<Rightarrow> 'k jsarray" where
  "exch a i j =
     (let swap = arr_get a i;
          a1 = arr_set a i (arr_get a j)
      in arr_set a1 j swap)"

partial_function (option) swim :: "'k comparator \<Rightarrow> 'k jsarray \<Rightarrow> rat \<Rightarrow> 'k jsarray option" where
  "swim cmp a k =
     (if 1 < k \<and> greater_pq cmp a (k / 2) k
      then swim cmp (exch a k (k / 2)) (k / 2)
      else Some a)"

declare swim.simps [code]

partial_function (option) sink :: "'k comparator \<Rightarrow> nat \<Rightarrow> 'k jsarray \<Rightarrow> nat \<Rightarrow> 'k jsarray option" where
  "sink cmp n a k =
     (if 2 * k \<le> n then
        (let j = 2 * k;
             j = (if j < n \<and> greater_pq cmp a (of_nat j) (of_nat (j + 1)) then j + 1 else j)
         in if \<not> greater_pq cmp a (of_nat k) (of_nat j) then Some a
            else sink cmp n (exch a (of_nat k) (of_nat j)) j)
      else Some a)"

declare sink.simps [code]

section \<open>Objects and the store\<close>

text \<open>
  Arrays are objects: a \<open>MinPQ\<close> holds a reference to its array, and the store maps
  references to arrays. \<open>next_addr\<close> is the first reference not yet allocated. A
  \<open>MinPQ\<close> object is the record of its three fields; each method returns its result,
  the fields of \<open>this\<close> after the call and the store after the call. A thrown error is
  a result \<open>Inl\<close>, with the state as the throw leaves it.
\<close>

type_synonym addr = nat

record 'k store =
  arrays :: "addr \<Rightarrow> 'k jsarray"
  next_addr :: addr

record 'k MinPQ =
  pq :: addr
  n :: nat
  comparator :: "'k comparator"

definition alloc :: "'k jsarray \<Rightarrow> 'k store \<Rightarrow> addr \<times> 'k store" where
  "alloc a s = (next_addr s, s\<lparr>arrays := (arrays s)(next_addr s := a), next_addr := Suc (next_addr s)\<rparr>)"

definition this_pq :: "'k MinPQ \<Rightarrow> 'k store \<Rightarrow> 'k jsarray" where
  "this_pq h s = arrays s (pq h)"

definition set_this_pq :: "'k MinPQ \<Rightarrow> 'k jsarray \<Rightarrow> 'k store \<Rightarrow> 'k store" where
  "set_this_pq h a s = s\<lparr>arrays := (arrays s)(pq h := a)\<rparr>"

text \<open>
  The constructor: \<open>initCapacity\<close> is optional, and \<open>initCapacity || 1\<close> is 1 when it is
  omitted or 0.
\<close>

definition MinPQ_new :: "'k comparator \<Rightarrow> rat option \<Rightarrow> 'k store \<Rightarrow> (error + 'k MinPQ) \<times> 'k store" where
  "MinPQ_new cmp initCapacity s =
     (case new_Array (case initCapacity of None \<Rightarrow> 1 | Some c \<Rightarrow> if c = 0 then 1 else c) of
        Inl e \<Rightarrow> (Inl e, s)
      | Inr a \<Rightarrow> (let (p, s1) = alloc a s in (Inr \<lparr>pq = p, n = 0, comparator = cmp\<rparr>, s1)))"

definition isEmpty :: "'k MinPQ \<Rightarrow> bool" where
  "isEmpty h \<longleftrightarrow> n h = 0"

definition size_pq :: "'k MinPQ \<Rightarrow> nat" where
  "size_pq h = n h"

definition min_pq :: "'k MinPQ \<Rightarrow> 'k store \<Rightarrow> (error + 'k option) \<times> 'k MinPQ \<times> 'k store" where
  "min_pq h s =
     (if isEmpty h then (Inl Underflow, h, s)
      else (Inr (arr_get (this_pq h s) 1), h, s))"

definition resize :: "'k MinPQ \<Rightarrow> rat \<Rightarrow> 'k store \<Rightarrow> (error + unit) \<times> 'k MinPQ \<times> 'k store" where
  "resize h capacity s =
     (case new_Array capacity of
        Inl e \<Rightarrow> (Inl e, h, s)
      | Inr temp \<Rightarrow>
          (let temp1 = fold (\<lambda>i t. arr_set t (of_nat i) (arr_get (this_pq h s) (of_nat i)))
                         [1..<Suc (n h)] temp;
               (p, s1) = alloc temp1 s
           in (Inr (), h\<lparr>pq := p\<rparr>, s1)))"

definition insert_pq :: "'k MinPQ \<Rightarrow> 'k \<Rightarrow> 'k store \<Rightarrow> ((error + unit) \<times> 'k MinPQ \<times> 'k store) option" where
  "insert_pq h x s =
     (case (if of_nat (n h) = of_nat (alen (this_pq h s)) - (1::rat)
            then resize h (2 * of_nat (alen (this_pq h s))) s
            else (Inr (), h, s)) of
        (Inl e, h1, s1) \<Rightarrow> Some (Inl e, h1, s1)
      | (Inr _, h1, s1) \<Rightarrow>
          do {
            let h2 = h1\<lparr>n := n h1 + 1\<rparr>;
            let a1 = arr_set (this_pq h2 s1) (of_nat (n h2)) (Some x);
            a2 \<leftarrow> swim (comparator h2) a1 (of_nat (n h2));
            Some (Inr (), h2, set_this_pq h2 a2 s1)
          })"

definition delMin :: "'k MinPQ \<Rightarrow> 'k store \<Rightarrow> ((error + 'k option) \<times> 'k MinPQ \<times> 'k store) option" where
  "delMin h s =
     (if isEmpty h then Some (Inl Underflow, h, s)
      else do {
        let a = this_pq h s;
        let min = arr_get a 1;
        let h1 = h\<lparr>n := n h - 1\<rparr>;
        let a1 = exch a 1 (of_nat (n h));
        a2 \<leftarrow> sink (comparator h1) (n h1) a1 1;
        let a3 = arr_set a2 (of_nat (n h1) + 1) (arr_get a2 (of_nat (n h1)));
        let s1 = set_this_pq h1 a3 s;
        if 0 < n h1 \<and> of_nat (n h1) = (of_nat (alen a3) - 1) / (4::rat)
        then (case resize h1 (of_nat (alen a3) / 2) s1 of
                (Inl e, h2, s2) \<Rightarrow> Some (Inl e, h2, s2)
              | (Inr _, h2, s2) \<Rightarrow> Some (Inr min, h2, s2))
        else Some (Inr min, h1, s1)
      })"

definition copy_pq :: "'k MinPQ \<Rightarrow> 'k store \<Rightarrow> (error + 'k MinPQ) \<times> 'k store" where
  "copy_pq h s =
     (case MinPQ_new (comparator h) (Some 0) s of
        (Inl e, s1) \<Rightarrow> (Inl e, s1)
      | (Inr c, s1) \<Rightarrow>
          (let (p, s2) = alloc (spread (this_pq h s1)) s1
           in (Inr (c\<lparr>pq := p, n := n h\<rparr>), s2)))"

text \<open>
  The generator \<open>[Symbol.iterator]\<close>, run to its end: the values it yields, in order,
  the error that ended it (if one did), and the store. It yields an object
  \<open>{ value: v, done: false }\<close> for each key it extracts from the copy and then the object
  \<open>{ done: true }\<close>.
\<close>

datatype 'k yielded = Value_not_done "'k option" | Done_true

partial_function (option) drain :: "'k MinPQ \<Rightarrow> 'k store \<Rightarrow> ('k yielded list \<times> error option \<times> 'k store) option" where
  "drain c s =
     (if \<not> isEmpty c then
        do {
          (r, c1, s1) \<leftarrow> delMin c s;
          (case r of
             Inl e \<Rightarrow> Some ([], Some e, s1)
           | Inr v \<Rightarrow>
               do {
                 (ys, e, s2) \<leftarrow> drain c1 s1;
                 Some (Value_not_done v # ys, e, s2)
               })
        }
      else Some ([Done_true], None, s))"

declare drain.simps [code]

definition iterator :: "'k MinPQ \<Rightarrow> 'k store \<Rightarrow> (('k yielded list \<times> error option) \<times> 'k MinPQ \<times> 'k store) option" where
  "iterator h s =
     (case copy_pq h s of
        (Inl e, s1) \<Rightarrow> Some (([], Some e), h, s1)
      | (Inr c, s1) \<Rightarrow>
          do {
            (ys, e, s2) \<leftarrow> drain c s1;
            Some ((ys, e), h, s2)
          })"

section \<open>Clients and the properties they observe\<close>

text \<open>
  A client's mutating calls on one queue, in order. \<open>insert\<close> returns \<open>undefined\<close>;
  a call that throws is caught and the next call made on the state the throw left.
\<close>

datatype 'k call = Insert 'k | ExtractMin

definition call_pq :: "'k MinPQ \<Rightarrow> 'k call \<Rightarrow> 'k store \<Rightarrow> ((error + 'k option) \<times> 'k MinPQ \<times> 'k store) option" where
  "call_pq h c s =
     (case c of
        Insert x \<Rightarrow>
          do {
            (r, h1, s1) \<leftarrow> insert_pq h x s;
            Some (case r of Inl e \<Rightarrow> Inl e | Inr _ \<Rightarrow> Inr None, h1, s1)
          }
      | ExtractMin \<Rightarrow> delMin h s)"

fun calls :: "'k MinPQ \<Rightarrow> 'k call list \<Rightarrow> 'k store \<Rightarrow> ((error + 'k option) list \<times> 'k MinPQ \<times> 'k store) option" where
  "calls h [] s = Some ([], h, s)"
| "calls h (c # cs) s =
     do {
       (r, h1, s1) \<leftarrow> call_pq h c s;
       (rs, h2, s2) \<leftarrow> calls h1 cs s1;
       Some (r # rs, h2, s2)
     }"

definition empty_store :: "'k store" where
  "empty_store = \<lparr>arrays = (\<lambda>_. \<lparr>elems = [], props = []\<rparr>), next_addr = 0\<rparr>"

text \<open>A client that constructs a queue in the empty store and then makes the calls.\<close>

definition scenario :: "'k comparator \<Rightarrow> rat option \<Rightarrow> 'k call list \<Rightarrow> ((error + 'k option) list \<times> 'k MinPQ \<times> 'k store) option" where
  "scenario cmp initCapacity cs =
     (case MinPQ_new cmp initCapacity empty_store of
        (Inl e, s) \<Rightarrow> None
      | (Inr h, s) \<Rightarrow> calls h cs s)"

text \<open>
  The comparator of the demonstration script, \<open>(a, b) => a - b\<close> on numbers:
  subtracting from or by \<open>undefined\<close> gives \<open>NaN\<close>.
\<close>

definition num_asc :: "int comparator" where
  "num_asc a b = (case (a, b) of (Some x, Some y) \<Rightarrow> Num (x - y) | _ \<Rightarrow> NaN)"

text \<open>
  The heap property as the specification words it: every node \<open>k\<close> of \<open>1..count\<close>
  compares \<open>\<le> 0\<close> with each of its children \<open>2k\<close>, \<open>2k+1\<close> that is \<open>\<le> count\<close>.
\<close>

definition heap_node_ok :: "'k comparator \<Rightarrow> 'k jsarray \<Rightarrow> nat \<Rightarrow> nat \<Rightarrow> bool" where
  "heap_node_ok cmp a m k \<longleftrightarrow>
     (if 2 * k \<le> m then le0 (cmp (arr_get a (of_nat k)) (arr_get a (of_nat (2 * k)))) else True) \<and>
     (if 2 * k + 1 \<le> m then le0 (cmp (arr_get a (of_nat k)) (arr_get a (of_nat (2 * k + 1)))) else True)"

definition heap_invariant :: "'k MinPQ \<Rightarrow> 'k store \<Rightarrow> bool" where
  "heap_invariant h s \<longleftrightarrow> list_all (heap_node_ok (comparator h) (this_pq h s) (n h)) [1..<Suc (n h)]"

text \<open>Non-decreasing order of a sequence of keys under a comparator.\<close>

definition ascending :: "'k comparator \<Rightarrow> 'k option list \<Rightarrow> bool" where
  "ascending cmp vs \<longleftrightarrow> sorted_wrt (\<lambda>x y. le0 (cmp x y)) vs"

text \<open>The keys a traversal emitted.\<close>

fun emitted :: "'k yielded list \<Rightarrow> 'k option list" where
  "emitted [] = []"
| "emitted (Value_not_done v # ys) = v # emitted ys"
| "emitted (Done_true # ys) = emitted ys"

text \<open>A queue of the keys 1 and 2 in an array of length 4, as two inserts leave it.\<close>

definition two_keys :: "int MinPQ" where
  "two_keys = \<lparr>pq = 0, n = 2, comparator = num_asc\<rparr>"

definition two_keys_store :: "int store" where
  "two_keys_store =
     \<lparr>arrays = (\<lambda>_. \<lparr>elems = [], props = []\<rparr>)(0 := \<lparr>elems = [None, Some 1, Some 2, None], props = []\<rparr>),
      next_addr = 1\<rparr>"

definition no_keys :: "int MinPQ" where
  "no_keys = \<lparr>pq = 0, n = 0, comparator = num_asc\<rparr>"

text \<open>
  The shrink test of \<open>delMin\<close>, \<open>n > 0 && n == (pq.length - 1) / 4\<close>, read over the
  naturals: the division is exact only when the length is \<open>4n + 1\<close>.
\<close>

definition shrink_due :: "nat \<Rightarrow> nat \<Rightarrow> bool" where
  "shrink_due m L \<longleftrightarrow> 0 < m \<and> L = 4 * m + 1"

section \<open>Arrays, loops and single calls\<close>

lemma is_index_of_nat [simp]: "is_index (of_nat k)"
  by (simp add: is_index_def)

lemma floor_rat_of_nat [simp]: "nat \<lfloor>(of_nat k :: rat)\<rfloor> = k"
  by simp

lemma alen_arr_set_nat: "k < alen a \<Longrightarrow> alen (arr_set a (of_nat k) v) = alen a"
  by (simp add: arr_set_def alen_def)

lemma alen_exch_nat: "i < alen a \<Longrightarrow> j < alen a \<Longrightarrow> alen (exch a (of_nat i) (of_nat j)) = alen a"
  by (simp add: exch_def Let_def alen_arr_set_nat)

text \<open>
  \<open>swim\<close> halves \<open>k\<close> on every round, whatever the comparator answers, so it
  leaves the loop once \<open>k \<le> 1\<close>; \<open>sink\<close> started at \<open>k \<ge> 1\<close> moves to a child
  \<open>j > k\<close> that is at most \<open>n\<close>. Swaps at positions below the length keep the length.
\<close>

lemma swim_halves: "1 < (k::rat) \<Longrightarrow> nat \<lfloor>k / 2\<rfloor> < nat \<lfloor>k\<rfloor>"
proof -
  assume k: "1 < k"
  then have f: "1 \<le> \<lfloor>k\<rfloor>" by linarith
  have "of_int (2 * \<lfloor>k / 2\<rfloor>) \<le> k"
    using of_int_floor_le [of "k / 2"] by simp
  then have "2 * \<lfloor>k / 2\<rfloor> \<le> \<lfloor>k\<rfloor>" by (simp only: le_floor_iff)
  with f show ?thesis by linarith
qed

lemma swim_terminates: "\<exists>a'. swim cmp a k = Some a'"
proof (induction "nat \<lfloor>k\<rfloor>" arbitrary: a k rule: less_induct)
  case less
  show ?case
  proof (cases "1 < k \<and> greater_pq cmp a (k / 2) k")
    case True
    then have "nat \<lfloor>k / 2\<rfloor> < nat \<lfloor>k\<rfloor>" using swim_halves by blast
    from less [OF this] obtain a' where "swim cmp (exch a k (k / 2)) (k / 2) = Some a'" by blast
    with True show ?thesis by (subst swim.simps) simp
  next
    case False
    then show ?thesis by (subst swim.simps) auto
  qed
qed

lemma sink_terminates_alen:
  "1 \<le> k \<Longrightarrow> \<exists>a'. sink cmp m a k = Some a' \<and> (m < alen a \<longrightarrow> alen a' = alen a)"
proof (induction "m - k" arbitrary: a k rule: less_induct)
  case less
  show ?case
  proof (cases "2 * k \<le> m")
    case False
    then show ?thesis by (subst sink.simps) simp
  next
    case True
    define j where "j = (if 2 * k < m \<and> greater_pq cmp a (of_nat (2 * k)) (of_nat (2 * k + 1)) then 2 * k + 1 else 2 * k)"
    have j: "j \<le> m" "k < j" "1 \<le> j" using True less.prems by (auto simp: j_def)
    show ?thesis
    proof (cases "greater_pq cmp a (of_nat k) (of_nat j)")
      case False
      with True show ?thesis by (subst sink.simps) (simp add: j_def Let_def)
    next
      case g: True
      have "m - j < m - k" using j by linarith
      from less(1) [OF this j(3), of "exch a (of_nat k) (of_nat j)"]
      obtain a' where a': "sink cmp m (exch a (of_nat k) (of_nat j)) j = Some a'"
        "m < alen (exch a (of_nat k) (of_nat j)) \<longrightarrow> alen a' = alen (exch a (of_nat k) (of_nat j))"
        by blast
      have "m < alen a \<longrightarrow> alen (exch a (of_nat k) (of_nat j)) = alen a"
        using j by (simp add: alen_exch_nat)
      with a' have "m < alen a \<longrightarrow> alen a' = alen a" by simp
      moreover have "sink cmp m a k = Some a'"
        using True g a'(1) by (subst sink.simps) (simp add: j_def Let_def)
      ultimately show ?thesis by blast
    qed
  qed
qed


text \<open>
  When the shrink test of \<open>delMin\<close> holds, the length is odd and half of it is not an
  array length: \<open>new Array\<close> throws before anything is allocated.
\<close>

lemma not_index_half:
  assumes "of_nat m = (of_nat L - 1) / (4::rat)"
  shows "\<not> is_index (of_nat L / 2)"
proof
  assume "is_index (of_nat L / 2)"
  then have "(of_int \<lfloor>(of_nat L / 2 :: rat)\<rfloor> :: rat) = of_nat L / 2" by (simp add: is_index_def)
  then obtain z :: int where z: "(of_int z :: rat) = of_nat L / 2" by blast
  from assms have "(of_nat L :: rat) = of_nat (4 * m + 1)" by simp
  then have L: "L = 4 * m + 1" by (simp only: of_nat_eq_iff)
  from z have "(of_int (2 * z) :: rat) = of_int (int L)" by simp
  then have "2 * z = int L" by (simp only: of_int_eq_iff)
  with L show False by presburger
qed

lemma resize_half_fails:
  "of_nat (n h) = (of_nat L - 1) / (4::rat) \<Longrightarrow> resize h (of_nat L / 2) s = (Inl RangeError, h, s)"
  by (simp add: resize_def new_Array_def not_index_half)

lemma shrink_due_iff: "(0 < m \<and> of_nat m = (of_nat L - 1) / (4::rat)) \<longleftrightarrow> shrink_due m L"
proof -
  have "(of_nat m = (of_nat L - 1) / (4::rat)) \<longleftrightarrow> ((of_nat L :: rat) = of_nat (4 * m + 1))"
    by (auto simp: field_simps)
  also have "\<dots> \<longleftrightarrow> L = 4 * m + 1" by (simp only: of_nat_eq_iff)
  finally show ?thesis by (simp add: shrink_due_def)
qed

text \<open>What \<open>delMin\<close> does on a non-empty queue.\<close>

lemma delMin_raw:
  assumes "0 < n h"
    and "sink (comparator h) (n h - 1) (exch (this_pq h s) 1 (of_nat (n h))) 1 = Some a2"
    and "a3 = arr_set a2 (of_nat (n h - 1) + 1) (arr_get a2 (of_nat (n h - 1)))"
  shows "delMin h s =
     (if 0 < n h - 1 \<and> of_nat (n h - 1) = (of_nat (alen a3) - 1) / (4::rat)
      then (case resize (h\<lparr>n := n h - 1\<rparr>) (of_nat (alen a3) / 2) (set_this_pq h a3 s) of
              (Inl e, h2, s2) \<Rightarrow> Some (Inl e, h2, s2)
            | (Inr _, h2, s2) \<Rightarrow> Some (Inr (arr_get (this_pq h s) 1), h2, s2))
      else Some (Inr (arr_get (this_pq h s) 1), h\<lparr>n := n h - 1\<rparr>, set_this_pq h a3 s))"
  using assms by (simp add: delMin_def isEmpty_def Let_def set_this_pq_def)

lemma delMin_nonempty:
  assumes "0 < n h"
  shows "\<exists>a2 a3. sink (comparator h) (n h - 1) (exch (this_pq h s) 1 (of_nat (n h))) 1 = Some a2 \<and>
           a3 = arr_set a2 (of_nat (n h)) (arr_get a2 (of_nat (n h - 1))) \<and>
           delMin h s =
             Some (if shrink_due (n h - 1) (alen a3) then Inl RangeError
                   else Inr (arr_get (this_pq h s) 1),
                   h\<lparr>n := n h - 1\<rparr>, set_this_pq h a3 s)"
proof -
  obtain a2 where a2: "sink (comparator h) (n h - 1) (exch (this_pq h s) 1 (of_nat (n h))) 1 = Some a2"
    using sink_terminates_alen [of 1] by blast
  have e: "(of_nat (n h - 1) + 1 :: rat) = of_nat (n h)"
    using assms by (simp add: of_nat_diff)
  define a3 where "a3 = arr_set a2 (of_nat (n h)) (arr_get a2 (of_nat (n h - 1)))"
  then have a3: "a3 = arr_set a2 (of_nat (n h - 1) + 1) (arr_get a2 (of_nat (n h - 1)))"
    by (simp only: e)
  note raw = delMin_raw [OF assms a2 a3, unfolded shrink_due_iff]
  have "delMin h s =
             Some (if shrink_due (n h - 1) (alen a3) then Inl RangeError
                   else Inr (arr_get (this_pq h s) 1),
                   h\<lparr>n := n h - 1\<rparr>, set_this_pq h a3 s)"
  proof (cases "shrink_due (n h - 1) (alen a3)")
    case True
    then have t: "0 < n h - 1 \<and> of_nat (n h - 1) = (of_nat (alen a3) - 1) / (4::rat)"
      by (simp only: shrink_due_iff)
    have "n (h\<lparr>n := n h - 1\<rparr>) = n h - 1" by simp
    with t have "of_nat (n (h\<lparr>n := n h - 1\<rparr>)) = (of_nat (alen a3) - 1) / (4::rat)"
      by (simp only:)
    then have "resize (h\<lparr>n := n h - 1\<rparr>) (of_nat (alen a3) / 2) (set_this_pq h a3 s)
        = (Inl RangeError, h\<lparr>n := n h - 1\<rparr>, set_this_pq h a3 s)"
      by (rule resize_half_fails)
    with True raw show ?thesis by simp
  next
    case False
    with raw show ?thesis by simp
  qed
  with a2 a3_def show ?thesis by blast
qed


text \<open>
  The outcome of \<open>delMin\<close> and of the drain loop is a function of the count, the
  comparator and the contents of the array of the queue; both write to that array only.
\<close>

lemma delMin_same_view:
  assumes "0 < n h" and "n h' = n h" and "comparator h' = comparator h"
    and "this_pq h' s' = this_pq h s"
  shows "\<exists>r a3. delMin h s = Some (r, h\<lparr>n := n h - 1\<rparr>, set_this_pq h a3 s) \<and>
                delMin h' s' = Some (r, h'\<lparr>n := n h - 1\<rparr>, set_this_pq h' a3 s')"
proof -
  from assms have pos: "0 < n h'" by simp
  from delMin_nonempty [OF assms(1), of s] obtain a2 a3 where
    1: "sink (comparator h) (n h - 1) (exch (this_pq h s) 1 (of_nat (n h))) 1 = Some a2"
       "a3 = arr_set a2 (of_nat (n h)) (arr_get a2 (of_nat (n h - 1)))"
       "delMin h s = Some (if shrink_due (n h - 1) (alen a3) then Inl RangeError
                   else Inr (arr_get (this_pq h s) 1), h\<lparr>n := n h - 1\<rparr>, set_this_pq h a3 s)"
    by blast
  from delMin_nonempty [OF pos, of s'] obtain b2 b3 where
    2: "sink (comparator h') (n h' - 1) (exch (this_pq h' s') 1 (of_nat (n h'))) 1 = Some b2"
       "b3 = arr_set b2 (of_nat (n h')) (arr_get b2 (of_nat (n h' - 1)))"
       "delMin h' s' = Some (if shrink_due (n h' - 1) (alen b3) then Inl RangeError
                   else Inr (arr_get (this_pq h' s') 1), h'\<lparr>n := n h' - 1\<rparr>, set_this_pq h' b3 s')"
    by blast
  from 1(1) 2(1) assms have "b2 = a2" by simp
  with 1(2) 2(2) assms have "b3 = a3" by simp
  with 1(3) 2(3) assms have
    "delMin h s = Some (if shrink_due (n h - 1) (alen a3) then Inl RangeError
                   else Inr (arr_get (this_pq h s) 1), h\<lparr>n := n h - 1\<rparr>, set_this_pq h a3 s)"
    "delMin h' s' = Some (if shrink_due (n h - 1) (alen a3) then Inl RangeError
                   else Inr (arr_get (this_pq h s) 1), h'\<lparr>n := n h - 1\<rparr>, set_this_pq h' a3 s')"
    by simp_all
  then show ?thesis by blast
qed

lemma drain_same_view:
  assumes "n c' = n c" and "comparator c' = comparator c" and "this_pq c' s' = this_pq c s"
  shows "\<exists>ys e t t'. drain c s = Some (ys, e, t) \<and> drain c' s' = Some (ys, e, t') \<and>
           next_addr t = next_addr s \<and> (\<forall>p. p \<noteq> pq c \<longrightarrow> arrays t p = arrays s p) \<and>
           next_addr t' = next_addr s' \<and> (\<forall>p. p \<noteq> pq c' \<longrightarrow> arrays t' p = arrays s' p)"
  using assms
proof (induction "n c" arbitrary: c c' s s')
  case 0
  then have "drain c s = Some ([Done_true], None, s)" "drain c' s' = Some ([Done_true], None, s')"
    by (subst drain.simps, simp add: isEmpty_def)+
  then show ?case by simp
next
  case (Suc m)
  then have pos: "0 < n c" by simp
  from delMin_same_view [OF pos Suc.prems] obtain r a3 where
    d: "delMin c s = Some (r, c\<lparr>n := n c - 1\<rparr>, set_this_pq c a3 s)"
       "delMin c' s' = Some (r, c'\<lparr>n := n c - 1\<rparr>, set_this_pq c' a3 s')"
    by blast
  show ?case
  proof (cases r)
    case (Inl e)
    with d pos Suc.prems have "drain c s = Some ([], Some e, set_this_pq c a3 s)"
      "drain c' s' = Some ([], Some e, set_this_pq c' a3 s')"
      by (subst drain.simps, simp add: isEmpty_def)+
    then show ?thesis by (simp add: set_this_pq_def)
  next
    case (Inr v)
    have m: "m = n (c\<lparr>n := n c - 1\<rparr>)" using Suc(2) by simp
    have "\<exists>ys e t t'. drain (c\<lparr>n := n c - 1\<rparr>) (set_this_pq c a3 s) = Some (ys, e, t) \<and>
        drain (c'\<lparr>n := n c - 1\<rparr>) (set_this_pq c' a3 s') = Some (ys, e, t') \<and>
        next_addr t = next_addr (set_this_pq c a3 s) \<and>
        (\<forall>p. p \<noteq> pq (c\<lparr>n := n c - 1\<rparr>) \<longrightarrow> arrays t p = arrays (set_this_pq c a3 s) p) \<and>
        next_addr t' = next_addr (set_this_pq c' a3 s') \<and>
        (\<forall>p. p \<noteq> pq (c'\<lparr>n := n c - 1\<rparr>) \<longrightarrow> arrays t' p = arrays (set_this_pq c' a3 s') p)"
      using Suc.prems by (intro Suc(1) [OF m]) (simp_all add: this_pq_def set_this_pq_def)
    then obtain ys e t t' where
      r: "drain (c\<lparr>n := n c - 1\<rparr>) (set_this_pq c a3 s) = Some (ys, e, t)"
         "drain (c'\<lparr>n := n c - 1\<rparr>) (set_this_pq c' a3 s') = Some (ys, e, t')"
         "next_addr t = next_addr s" "\<forall>p. p \<noteq> pq c \<longrightarrow> arrays t p = arrays s p"
         "next_addr t' = next_addr s'" "\<forall>p. p \<noteq> pq c' \<longrightarrow> arrays t' p = arrays s' p"
      by (auto simp: set_this_pq_def)
    from d Inr pos Suc.prems r(1,2) have
      "drain c s = Some (Value_not_done v # ys, e, t)"
      "drain c' s' = Some (Value_not_done v # ys, e, t')"
      by (subst drain.simps, simp add: isEmpty_def)+
    with r(3-6) show ?thesis by simp
  qed
qed

lemma copy_pq_eq:
  assumes "pq h \<noteq> next_addr s"
  shows "copy_pq h s =
     (Inr \<lparr>pq = Suc (next_addr s), n = n h, comparator = comparator h\<rparr>,
      s\<lparr>arrays := (arrays s)(next_addr s := \<lparr>elems = [None], props = []\<rparr>,
                              Suc (next_addr s) := spread (this_pq h s)),
        next_addr := Suc (Suc (next_addr s))\<rparr>)"
  using assms
  by (simp add: copy_pq_def MinPQ_new_def new_Array_def is_index_def alloc_def this_pq_def)


text \<open>Which arrays a call can change, and where the array of the queue is afterwards.\<close>

lemma resize_ok:
  assumes "is_index c"
  shows "resize h c s =
     (Inr (), h\<lparr>pq := next_addr s\<rparr>,
      s\<lparr>arrays := (arrays s)(next_addr s :=
            fold (\<lambda>i t. arr_set t (of_nat i) (arr_get (this_pq h s) (of_nat i)))
              [1..<Suc (n h)] \<lparr>elems = replicate (nat \<lfloor>c\<rfloor>) None, props = []\<rparr>),
         next_addr := Suc (next_addr s)\<rparr>)"
  using assms by (simp add: resize_def new_Array_def alloc_def Let_def)

lemma resize_double:
  "\<exists>temp. resize h (2 * of_nat L) s =
     (Inr (), h\<lparr>pq := next_addr s\<rparr>,
      s\<lparr>arrays := (arrays s)(next_addr s := temp), next_addr := Suc (next_addr s)\<rparr>)"
proof -
  have "(2 * of_nat L :: rat) = of_nat (2 * L)" by simp
  then have "is_index (2 * of_nat L)" by (simp only: is_index_of_nat)
  from resize_ok [OF this] show ?thesis by blast
qed

lemma insert_pq_frame:
  "\<exists>h1 s1. insert_pq h x s = Some (Inr (), h1, s1) \<and> n h1 = n h + 1 \<and>
     comparator h1 = comparator h \<and>
     (pq h1 = pq h \<and> next_addr s1 = next_addr s \<or>
      pq h1 = next_addr s \<and> next_addr s1 = Suc (next_addr s)) \<and>
     (\<forall>p. p \<noteq> pq h \<and> p \<noteq> next_addr s \<longrightarrow> arrays s1 p = arrays s p)"
proof (cases "of_nat (n h) = of_nat (alen (this_pq h s)) - (1::rat)")
  case True
  obtain temp where r: "resize h (2 * of_nat (alen (this_pq h s))) s =
     (Inr (), h\<lparr>pq := next_addr s\<rparr>,
      s\<lparr>arrays := (arrays s)(next_addr s := temp), next_addr := Suc (next_addr s)\<rparr>)"
    using resize_double by blast
  define h2 where "h2 = h\<lparr>pq := next_addr s, n := n h + 1\<rparr>"
  define s1 where "s1 = s\<lparr>arrays := (arrays s)(next_addr s := temp), next_addr := Suc (next_addr s)\<rparr>"
  obtain a2 where "swim (comparator h2) (arr_set (this_pq h2 s1) (of_nat (n h2)) (Some x)) (of_nat (n h2)) = Some a2"
    using swim_terminates by blast
  with True r have "insert_pq h x s = Some (Inr (), h2, set_this_pq h2 a2 s1)"
    by (simp add: insert_pq_def h2_def s1_def Let_def)
  then show ?thesis by (simp add: h2_def s1_def set_this_pq_def)
next
  case False
  define h2 where "h2 = h\<lparr>n := n h + 1\<rparr>"
  obtain a2 where "swim (comparator h2) (arr_set (this_pq h2 s) (of_nat (n h2)) (Some x)) (of_nat (n h2)) = Some a2"
    using swim_terminates by blast
  with False have "insert_pq h x s = Some (Inr (), h2, set_this_pq h2 a2 s)"
    by (simp add: insert_pq_def h2_def Let_def)
  then show ?thesis by (simp add: h2_def set_this_pq_def)
qed

lemma delMin_frame:
  "\<exists>r h1 s1. delMin h s = Some (r, h1, s1) \<and> pq h1 = pq h \<and> comparator h1 = comparator h \<and>
     next_addr s1 = next_addr s \<and> (\<forall>p. p \<noteq> pq h \<longrightarrow> arrays s1 p = arrays s p)"
proof (cases "0 < n h")
  case True
  from delMin_nonempty [OF True, of s] show ?thesis
    by (auto simp: set_this_pq_def)
next
  case False
  then show ?thesis by (simp add: delMin_def isEmpty_def)
qed

lemma call_pq_frame:
  "\<exists>r h1 s1. call_pq h c s = Some (r, h1, s1) \<and> comparator h1 = comparator h \<and>
     next_addr s \<le> next_addr s1 \<and>
     (pq h1 = pq h \<or> next_addr s \<le> pq h1 \<and> pq h1 < next_addr s1) \<and>
     (\<forall>p. p \<noteq> pq h \<and> p < next_addr s \<longrightarrow> arrays s1 p = arrays s p)"
proof (cases c)
  case (Insert x)
  from insert_pq_frame [of h x s] obtain h1 s1 where
    "insert_pq h x s = Some (Inr (), h1, s1)" "comparator h1 = comparator h"
    "pq h1 = pq h \<and> next_addr s1 = next_addr s \<or>
      pq h1 = next_addr s \<and> next_addr s1 = Suc (next_addr s)"
    "\<forall>p. p \<noteq> pq h \<and> p \<noteq> next_addr s \<longrightarrow> arrays s1 p = arrays s p"
    by blast
  with Insert show ?thesis by (auto simp: call_pq_def)
next
  case ExtractMin
  with delMin_frame [of h s] show ?thesis by (auto simp: call_pq_def)
qed

lemma calls_frame:
  assumes "pq h < next_addr s"
  shows "\<exists>rs h1 s1. calls h cs s = Some (rs, h1, s1) \<and> comparator h1 = comparator h \<and>
     next_addr s \<le> next_addr s1 \<and> pq h1 < next_addr s1 \<and>
     (pq h1 = pq h \<or> next_addr s \<le> pq h1) \<and>
     (\<forall>p. p \<noteq> pq h \<and> p < next_addr s \<longrightarrow> arrays s1 p = arrays s p)"
  using assms
proof (induction cs arbitrary: h s)
  case Nil
  then show ?case by simp
next
  case (Cons c cs)
  from call_pq_frame [of h c s] obtain r h1 s1 where
    1: "call_pq h c s = Some (r, h1, s1)" "comparator h1 = comparator h"
       "next_addr s \<le> next_addr s1"
       "pq h1 = pq h \<or> next_addr s \<le> pq h1 \<and> pq h1 < next_addr s1"
       "\<forall>p. p \<noteq> pq h \<and> p < next_addr s \<longrightarrow> arrays s1 p = arrays s p"
    by blast
  with Cons.prems have wf: "pq h1 < next_addr s1" by auto
  from Cons.IH [OF wf] obtain rs h2 s2 where
    2: "calls h1 cs s1 = Some (rs, h2, s2)" "comparator h2 = comparator h1"
       "next_addr s1 \<le> next_addr s2" "pq h2 < next_addr s2"
       "pq h2 = pq h1 \<or> next_addr s1 \<le> pq h2"
       "\<forall>p. p \<noteq> pq h1 \<and> p < next_addr s1 \<longrightarrow> arrays s2 p = arrays s1 p"
    by blast
  have "calls h (c # cs) s = Some (r # rs, h2, s2)" using 1(1) 2(1) by simp
  moreover have "comparator h2 = comparator h" using 1(2) 2(2) by simp
  moreover have "next_addr s \<le> next_addr s2" using 1(3) 2(3) by simp
  moreover have "pq h2 = pq h \<or> next_addr s \<le> pq h2" using 1(3,4) 2(5) by auto
  moreover have "\<forall>p. p \<noteq> pq h \<and> p < next_addr s \<longrightarrow> arrays s2 p = arrays s p"
  proof (intro allI impI)
    fix p assume p: "p \<noteq> pq h \<and> p < next_addr s"
    with 1(4) have "p \<noteq> pq h1" by auto
    moreover from p 1(3) have "p < next_addr s1" by simp
    ultimately have "arrays s2 p = arrays s1 p" using 2(6) by simp
    with p 1(5) show "arrays s2 p = arrays s p" by simp
  qed
  ultimately show ?case using 2(4) by blast
qed

lemma alen_arr_set_1: "1 < alen a \<Longrightarrow> alen (arr_set a 1 v) = alen a"
  using alen_arr_set_nat [of 1 a v] by simp

lemma alen_exch_root: "0 < m \<Longrightarrow> m < alen a \<Longrightarrow> alen (exch a 1 (of_nat m)) = alen a"
  using alen_exch_nat [of 1 a m] by simp

lemma drain_terminates: "\<exists>r. drain c s = Some r"
  using drain_same_view [of c c s s] by auto

lemma copy_pq_ok: "\<exists>c s1. copy_pq h s = (Inr c, s1)"
  by (simp add: copy_pq_def MinPQ_new_def new_Array_def is_index_def alloc_def)

lemma iterator_terminates: "\<exists>r. iterator h s = Some r"
proof -
  obtain c s1 where c: "copy_pq h s = (Inr c, s1)" using copy_pq_ok by blast
  obtain r where "drain c s1 = Some r" using drain_terminates by blast
  with c show ?thesis by (cases r) (simp add: iterator_def)
qed

text \<open>
  The count of a queue stays below the length of its array: the constructor allocates at
  least one slot, \<open>insert\<close> doubles a full array before it writes, and no write of
  \<open>swim\<close>, \<open>sink\<close> or \<open>delMin\<close> goes past the end. So this holds of every queue a
  client can build.
\<close>

lemma alen_arr_set_below:
  "i < of_nat (alen a) \<Longrightarrow> alen (arr_set a i v) = alen a"
proof (cases "is_index i")
  case False
  then show ?thesis by (simp add: arr_set_def alen_def)
next
  case True
  assume "i < of_nat (alen a)"
  moreover from True have "of_int \<lfloor>i\<rfloor> = i" "0 \<le> i" by (simp_all add: is_index_def)
  ultimately have "nat \<lfloor>i\<rfloor> < alen a"
    by (metis floor_less_iff nat_less_iff of_int_of_nat_eq zero_le_floor)
  with True show ?thesis by (simp add: arr_set_def alen_def)
qed

lemma alen_exch_below:
  "i < of_nat (alen a) \<Longrightarrow> j < of_nat (alen a) \<Longrightarrow> alen (exch a i j) = alen a"
  by (simp add: exch_def Let_def alen_arr_set_below)

lemma swim_alen:
  "k < of_nat (alen a) \<Longrightarrow> \<exists>a'. swim cmp a k = Some a' \<and> alen a' = alen a"
proof (induction "nat \<lfloor>k\<rfloor>" arbitrary: a k rule: less_induct)
  case less
  show ?case
  proof (cases "1 < k \<and> greater_pq cmp a (k / 2) k")
    case True
    then have 1: "nat \<lfloor>k / 2\<rfloor> < nat \<lfloor>k\<rfloor>" using swim_halves by blast
    from True less.prems have h: "k / 2 < of_nat (alen a)" by simp
    with less.prems have e: "alen (exch a k (k / 2)) = alen a" by (simp add: alen_exch_below)
    with h have "k / 2 < of_nat (alen (exch a k (k / 2)))" by simp
    from less.hyps [OF 1 this] e obtain a' where
      "swim cmp (exch a k (k / 2)) (k / 2) = Some a'" "alen a' = alen a" by auto
    with True show ?thesis by (subst swim.simps) simp
  next
    case False
    then show ?thesis by (subst swim.simps) auto
  qed
qed

lemma fold_copy_alen:
  "\<forall>i \<in> set js. i < alen t \<Longrightarrow>
   alen (fold (\<lambda>i t. arr_set t (of_nat i) (f i)) js t) = alen t"
  by (induction js arbitrary: t) (simp_all add: alen_arr_set_nat)

lemma index_pos: "is_index c \<Longrightarrow> c \<noteq> 0 \<Longrightarrow> 0 < nat \<lfloor>c\<rfloor>"
proof -
  assume "is_index c" "c \<noteq> 0"
  then have "of_int \<lfloor>c\<rfloor> = c" "0 < c" by (simp_all add: is_index_def)
  then have "0 < \<lfloor>c\<rfloor>" by (metis of_int_0_less_iff)
  then show ?thesis by simp
qed

lemma MinPQ_new_count_below:
  assumes "MinPQ_new cmp cap s = (Inr h, s1)"
  shows "n h < alen (this_pq h s1)"
proof -
  define c :: rat where "c = (case cap of None \<Rightarrow> 1 | Some c \<Rightarrow> if c = 0 then 1 else c)"
  have nz: "c \<noteq> 0" by (simp add: c_def split: option.splits)
  from assms have i: "is_index c"
    by (auto simp: MinPQ_new_def new_Array_def c_def [symmetric] split: if_splits)
  with assms have "h = \<lparr>pq = next_addr s, n = 0, comparator = cmp\<rparr>"
    "arrays s1 (next_addr s) = \<lparr>elems = replicate (nat \<lfloor>c\<rfloor>) None, props = []\<rparr>"
    by (auto simp: MinPQ_new_def new_Array_def c_def [symmetric] alloc_def)
  with index_pos [OF i nz] show ?thesis by (simp add: this_pq_def alen_def)
qed

lemma swim_alen_eq: "swim cmp a k = Some a' \<Longrightarrow> k < of_nat (alen a) \<Longrightarrow> alen a' = alen a"
  using swim_alen [of k a cmp] by auto

lemma resize_alen:
  assumes "resize h c s = (Inr u, h', s')" and "n h < nat \<lfloor>c\<rfloor>"
  shows "n h' = n h \<and> comparator h' = comparator h \<and> alen (this_pq h' s') = nat \<lfloor>c\<rfloor>"
proof -
  define temp where "temp = fold (\<lambda>i t. arr_set t (of_nat i) (arr_get (this_pq h s) (of_nat i)))
              [1..<Suc (n h)] \<lparr>elems = replicate (nat \<lfloor>c\<rfloor>) None, props = []\<rparr>"
  have "alen \<lparr>elems = replicate (nat \<lfloor>c\<rfloor>) None, props = []\<rparr> = nat \<lfloor>c\<rfloor>"
    by (simp add: alen_def)
  with assms(2) have t: "alen temp = nat \<lfloor>c\<rfloor>"
    unfolding temp_def by (subst fold_copy_alen) auto
  from assms(1) have i: "is_index c"
    by (auto simp: resize_def new_Array_def split: if_splits)
  from assms(1) resize_ok [OF i, of h s] have "h' = h\<lparr>pq := next_addr s\<rparr>"
    "s' = s\<lparr>arrays := (arrays s)(next_addr s := temp), next_addr := Suc (next_addr s)\<rparr>"
    by (simp_all add: temp_def)
  with t show ?thesis by (simp add: this_pq_def)
qed

lemma insert_pq_count_below:
  assumes "n h < alen (this_pq h s)" and "insert_pq h x s = Some (r, h1, s1)"
  shows "n h1 < alen (this_pq h1 s1)"
proof -
  define c where "c \<longleftrightarrow> of_nat (n h) = of_nat (alen (this_pq h s)) - (1::rat)"
  define res where "res = (if c then resize h (2 * of_nat (alen (this_pq h s))) s else (Inr (), h, s))"
  obtain u h' s' where res: "res = (u, h', s')" by (cases res)
  have ins: "insert_pq h x s =
     (case res of
        (Inl e, h1, s1) \<Rightarrow> Some (Inl e, h1, s1)
      | (Inr _, h1, s1) \<Rightarrow>
          do {
            let h2 = h1\<lparr>n := n h1 + 1\<rparr>;
            let a1 = arr_set (this_pq h2 s1) (of_nat (n h2)) (Some x);
            a2 \<leftarrow> swim (comparator h2) a1 (of_nat (n h2));
            Some (Inr (), h2, set_this_pq h2 a2 s1)
          })"
    unfolding insert_pq_def res_def c_def ..
  have inv: "(\<exists>v. u = Inr v) \<and> n h' = n h \<and> n h + 1 < alen (this_pq h' s')"
  proof (cases c)
    case True
    have "(2 * of_nat (alen (this_pq h s)) :: rat) = of_nat (2 * alen (this_pq h s))" by simp
    then have fl: "nat \<lfloor>2 * of_nat (alen (this_pq h s)) :: rat\<rfloor> = 2 * alen (this_pq h s)"
      by (simp only: floor_rat_of_nat)
    have idx: "is_index (2 * of_nat (alen (this_pq h s)))"
      using is_index_of_nat [of "2 * alen (this_pq h s)"] by simp
    from True res have rs: "resize h (2 * of_nat (alen (this_pq h s))) s = (u, h', s')"
      by (simp add: res_def)
    with resize_ok [OF idx, of h s] obtain v where v: "u = Inr v" by auto
    from resize_alen [OF rs [unfolded v]] assms(1) fl
    have "n h' = n h \<and> alen (this_pq h' s') = 2 * alen (this_pq h s)" by simp
    with assms(1) v show ?thesis by simp
  next
    case False
    then have "int (n h) \<noteq> int (alen (this_pq h s)) - 1"
      unfolding c_def by (metis of_int_1 of_int_diff of_int_of_nat_eq)
    with assms(1) have "n h + 1 < alen (this_pq h s)" by linarith
    with False res show ?thesis by (simp add: res_def)
  qed
  then obtain v where v: "u = Inr v" by blast
  define h2 where "h2 = h'\<lparr>n := n h' + 1\<rparr>"
  define a1 where "a1 = arr_set (this_pq h2 s') (of_nat (n h2)) (Some x)"
  from assms(2) obtain a2 where a2: "swim (comparator h2) a1 (of_nat (n h2)) = Some a2"
    "h1 = h2" "s1 = set_this_pq h2 a2 s'"
    unfolding ins res v by (auto simp: Let_def h2_def a1_def bind_eq_Some_conv)
  have p: "this_pq h2 s' = this_pq h' s'" by (simp add: h2_def this_pq_def)
  have lt: "n h2 < alen (this_pq h' s')" using inv by (simp add: h2_def)
  then have "alen a1 = alen (this_pq h' s')" unfolding a1_def p by (rule alen_arr_set_nat)
  moreover from this lt have "(of_nat (n h2) :: rat) < of_nat (alen a1)" by simp
  ultimately have "alen a2 = alen (this_pq h' s')" using swim_alen_eq [OF a2(1)] by simp
  with lt a2(2,3) show ?thesis by (simp add: this_pq_def set_this_pq_def)
qed

lemma delMin_count_below:
  assumes "n h < alen (this_pq h s)" and "delMin h s = Some (r, h1, s1)"
  shows "n h1 < alen (this_pq h1 s1)"
proof (cases "0 < n h")
  case False
  with assms show ?thesis by (auto simp: delMin_def isEmpty_def)
next
  case True
  from delMin_nonempty [OF True, of s] obtain a2 a3 where
    1: "sink (comparator h) (n h - 1) (exch (this_pq h s) 1 (of_nat (n h))) 1 = Some a2"
       "a3 = arr_set a2 (of_nat (n h)) (arr_get a2 (of_nat (n h - 1)))"
       "delMin h s = Some (if shrink_due (n h - 1) (alen a3) then Inl RangeError
                   else Inr (arr_get (this_pq h s) 1), h\<lparr>n := n h - 1\<rparr>, set_this_pq h a3 s)"
    by blast
  have e: "alen (exch (this_pq h s) 1 (of_nat (n h))) = alen (this_pq h s)"
    using True assms(1) by (rule alen_exch_root)
  from sink_terminates_alen [of 1 "comparator h" "n h - 1" "exch (this_pq h s) 1 (of_nat (n h))"] 1(1) e assms(1)
  have "alen a2 = alen (this_pq h s)" by auto
  with 1(2) assms(1) have "alen a3 = alen (this_pq h s)" by (simp add: alen_arr_set_nat)
  with 1(3) assms show ?thesis by (auto simp: this_pq_def set_this_pq_def)
qed

lemma calls_count_below:
  "n h < alen (this_pq h s) \<Longrightarrow> calls h cs s = Some (rs, h1, s1) \<Longrightarrow> n h1 < alen (this_pq h1 s1)"
proof (induction cs arbitrary: h s rs)
  case Nil
  then show ?case by simp
next
  case (Cons c cs)
  from Cons.prems(2) obtain r h' s' rs' where
    1: "call_pq h c s = Some (r, h', s')" "calls h' cs s' = Some (rs', h1, s1)"
    by (auto simp: bind_eq_Some_conv)
  from 1(1) Cons.prems(1) have "n h' < alen (this_pq h' s')"
    by (cases c) (auto simp: call_pq_def bind_eq_Some_conv dest: insert_pq_count_below delMin_count_below)
  from Cons.IH [OF this 1(2)] show ?case .
qed

lemma scenario_count_below:
  "scenario cmp cap cs = Some (rs, h, s) \<Longrightarrow> n h < alen (this_pq h s)"
  by (auto simp: scenario_def split: prod.splits sum.splits
      dest: MinPQ_new_count_below calls_count_below)

text \<open>
  Evaluation of the model on concrete inputs: the simplifier unfolds the definitions, and
  the weak congruence rules make it evaluate a scrutinee before it enters the branches.
\<close>

lemma bind_weak_cong: "x = y \<Longrightarrow> Option.bind x f = Option.bind y f"
  by simp

lemma floor_rat_numeral_divide:
  "\<lfloor>numeral a / numeral b :: rat\<rfloor> = numeral a div numeral b"
  using floor_divide_of_int_eq [of "numeral a" "numeral b", where ?'a = rat] by simp

lemma floor_rat_one_divide: "\<lfloor>1 / numeral b :: rat\<rfloor> = 1 div numeral b"
  using floor_divide_of_int_eq [of 1 "numeral b", where ?'a = rat] by simp

lemmas run_defs = Let_def floor_rat_numeral_divide floor_rat_one_divide eval_nat_numeral
  scenario_def MinPQ_new_def new_Array_def is_index_def alloc_def empty_store_def
  call_pq_def insert_pq_def delMin_def resize_def this_pq_def set_this_pq_def isEmpty_def
  alen_def arr_get_def arr_set_def exch_def greater_pq_def num_asc_def
  swim.simps sink.simps drain.simps iterator_def copy_pq_def spread_def
  heap_invariant_def heap_node_ok_def ascending_def

lemmas run_congs =
  if_weak_cong let_weak_cong bind_weak_cong prod.case_cong_weak sum.case_cong_weak
  option.case_cong_weak call.case_cong_weak

section \<open>The claims\<close>

text \<open>
  C1 (the heap property after any sequence of \<open>insert\<close> and \<open>delMin\<close> calls) does not
  hold of the code. \<open>swim\<close> computes the parent of \<open>k\<close> as \<open>k / 2\<close>, which is not an
  index when \<open>k\<close> is odd: \<open>pq[1.5]\<close> is \<open>undefined\<close>, the comparison is not \<open>> 0\<close>
  and the new key stays where it was put. After inserting 3, 5, 2 into a new queue
  with the numeric comparator the array is \<open>[_, 3, 5, 2]\<close>: the root 3 compares \<open>> 0\<close>
  with its child 2.
\<close>

theorem heap_invariant_broken_by_insert:
  "map_option (\<lambda>(rs, h, s). (rs, n h, elems (this_pq h s), heap_invariant h s,
       comparator h (arr_get (this_pq h s) 1) (arr_get (this_pq h s) 3)))
     (scenario num_asc None [Insert 3, Insert 5, Insert 2])
   = Some ([Inr None, Inr None, Inr None], 3, [None, Some 3, Some 5, Some 2], False, Num 1)"
  by (simp add: run_defs cong: run_congs)

text \<open>
  C2 (extraction in non-decreasing order) does not hold of the code, by the same defect
  of \<open>swim\<close>: after inserting 3, 5, 2, three calls of \<open>delMin\<close> return 3, 2, 5.
\<close>

theorem extraction_not_sorted:
  "map_option (\<lambda>(rs, h, s). (drop 3 rs, n h, ascending num_asc (map projr (drop 3 rs))))
     (scenario num_asc None [Insert 3, Insert 5, Insert 2, ExtractMin, ExtractMin, ExtractMin])
   = Some ([Inr (Some 3), Inr (Some 2), Inr (Some 5)], 0, False)"
  by (simp add: run_defs cong: run_congs)

text \<open>
  C3 (a traversal emits exactly count elements, the keys of the queue, in ascending order)
  does not hold of the code. On the queue built by inserting 3, 5, 2 (count 3) the
  generator yields four objects, the last being \<open>{ done: true }\<close>, and the keys come
  as 3, 2, 5. On a queue constructed with capacity 5 that holds the keys 1, 2, a valid
  heap, the first \<open>delMin\<close> of the traversal throws RangeError and nothing is yielded.
\<close>

theorem traversal_not_sorted:
  "(case scenario num_asc None [Insert 3, Insert 5, Insert 2] of
      None \<Rightarrow> None
    | Some (rs, h, s) \<Rightarrow>
        map_option (\<lambda>((ys, e), h1, s1). (n h, ys, e, length ys, ascending num_asc (emitted ys)))
          (iterator h s))
   = Some (3, [Value_not_done (Some 3), Value_not_done (Some 2), Value_not_done (Some 5), Done_true],
           None, 4, False) \<and>
   (case scenario num_asc (Some 5) [Insert 1, Insert 2] of
      None \<Rightarrow> None
    | Some (rs, h, s) \<Rightarrow>
        map_option (\<lambda>((ys, e), h1, s1). (n h, heap_invariant h s, ys, e)) (iterator h s))
   = Some (2, True, [], Some RangeError)"
  by (simp add: run_defs cong: run_congs)

text \<open>
  C4. On a queue with count 0, \<open>min\<close> and \<open>delMin\<close> fail with Underflow and leave the
  fields of the queue and the store as they were; on a queue with count above 0 neither
  fails with Underflow.
\<close>

theorem underflow_iff_empty:
  "(n h = 0 \<longrightarrow> min_pq h s = (Inl Underflow, h, s) \<and> delMin h s = Some (Inl Underflow, h, s)) \<and>
   (0 < n h \<longrightarrow> fst (min_pq h s) \<noteq> Inl Underflow \<and>
      (\<exists>r h1 s1. delMin h s = Some (r, h1, s1) \<and> r \<noteq> Inl Underflow))"
proof (intro conjI impI)
  assume "n h = 0"
  then show "min_pq h s = (Inl Underflow, h, s)" "delMin h s = Some (Inl Underflow, h, s)"
    by (simp_all add: min_pq_def delMin_def isEmpty_def)
next
  assume pos: "0 < n h"
  then show "fst (min_pq h s) \<noteq> Inl Underflow" by (simp add: min_pq_def isEmpty_def)
  from delMin_nonempty [OF pos, of s] show "\<exists>r h1 s1. delMin h s = Some (r, h1, s1) \<and> r \<noteq> Inl Underflow"
    by auto
qed

theorem underflow_iff_empty_witness:
  "n no_keys = 0 \<and> min_pq no_keys two_keys_store = (Inl Underflow, no_keys, two_keys_store) \<and>
   delMin no_keys two_keys_store = Some (Inl Underflow, no_keys, two_keys_store) \<and>
   0 < n two_keys \<and> fst (min_pq two_keys two_keys_store) \<noteq> Inl Underflow \<and>
   (\<exists>r h1 s1. delMin two_keys two_keys_store = Some (r, h1, s1) \<and> r \<noteq> Inl Underflow)"
  using underflow_iff_empty [of no_keys two_keys_store] underflow_iff_empty [of two_keys two_keys_store]
  by (simp add: no_keys_def two_keys_def)

text \<open>
  C5 as stated (the capacity is halved whenever at least one key remains and at most a
  quarter of the capacity is occupied) fails: \<open>delMin\<close> tests the remaining count for
  equality with \<open>(length - 1) / 4\<close>, not for being at most that. A queue constructed
  with capacity 16 that holds the keys 1, 2 keeps its capacity 16 when one key is
  extracted, although one key remains and \<open>4 * 1 \<le> 16\<close>.
\<close>

theorem capacity_not_halved_below_quarter:
  "map_option (\<lambda>(rs, h, s). (n h, alen (this_pq h s)))
     (scenario num_asc (Some 16) [Insert 1, Insert 2]) = Some (2, 16) \<and>
   map_option (\<lambda>(rs, h, s). (last rs, 1 \<le> n h \<and> 4 * n h \<le> alen (this_pq h s), alen (this_pq h s)))
     (scenario num_asc (Some 16) [Insert 1, Insert 2, ExtractMin]) = Some (Inr (Some 1), True, 16)"
  by (simp add: run_defs cong: run_congs)

text \<open>
  C5, amended. A \<open>delMin\<close> on a non-empty queue whose count is below the length of its
  array succeeds and leaves the length as it was, unless the remaining count is at least
  one and equal to a quarter of \<open>length - 1\<close>, rounded down; in particular the capacity
  is never reduced when the queue is left empty. Nothing is said of the states in which
  the remaining count is that quarter. (The count is below the length in every state a
  client can reach, see \<open>scenario_count_below\<close>.)
\<close>

theorem capacity_kept_unless_quarter:
  assumes "0 < n h" and "n h < alen (this_pq h s)"
    and "\<not> (1 < n h \<and> n h - 1 = (alen (this_pq h s) - 1) div 4)"
  shows "\<exists>v h1 s1. delMin h s = Some (Inr v, h1, s1) \<and> n h1 = n h - 1 \<and>
           alen (this_pq h1 s1) = alen (this_pq h s)"
proof -
  from delMin_nonempty [OF assms(1), of s] obtain a2 a3 where
    1: "sink (comparator h) (n h - 1) (exch (this_pq h s) 1 (of_nat (n h))) 1 = Some a2"
       "a3 = arr_set a2 (of_nat (n h)) (arr_get a2 (of_nat (n h - 1)))"
       "delMin h s = Some (if shrink_due (n h - 1) (alen a3) then Inl RangeError
                   else Inr (arr_get (this_pq h s) 1), h\<lparr>n := n h - 1\<rparr>, set_this_pq h a3 s)"
    by blast
  have e: "alen (exch (this_pq h s) 1 (of_nat (n h))) = alen (this_pq h s)"
    using assms(1,2) by (rule alen_exch_root)
  from sink_terminates_alen [of 1 "comparator h" "n h - 1" "exch (this_pq h s) 1 (of_nat (n h))"] 1(1) e assms(2)
  have "alen a2 = alen (this_pq h s)" by auto
  with 1(2) assms(2) have a3: "alen a3 = alen (this_pq h s)" by (simp add: alen_arr_set_nat)
  with assms(3) have "\<not> shrink_due (n h - 1) (alen a3)" by (auto simp: shrink_due_def)
  with 1(3) have "delMin h s = Some (Inr (arr_get (this_pq h s) 1), h\<lparr>n := n h - 1\<rparr>, set_this_pq h a3 s)"
    by simp
  moreover have "this_pq (h\<lparr>n := n h - 1\<rparr>) (set_this_pq h a3 s) = a3"
    by (simp add: this_pq_def set_this_pq_def)
  ultimately show ?thesis using a3 by simp
qed

theorem capacity_kept_unless_quarter_witness:
  "0 < n two_keys \<and> n two_keys < alen (this_pq two_keys two_keys_store) \<and>
   (\<exists>v h1 s1. delMin two_keys two_keys_store = Some (Inr v, h1, s1) \<and> n h1 = 1 \<and>
      alen (this_pq h1 s1) = 4)"
proof -
  have 1: "0 < n two_keys" by (simp add: two_keys_def)
  have 2: "alen (this_pq two_keys two_keys_store) = 4"
    by (simp add: two_keys_def two_keys_store_def this_pq_def alen_def)
  have 3: "n two_keys = 2" by (simp add: two_keys_def)
  have "\<not> (1 < n two_keys \<and> n two_keys - 1 = (alen (this_pq two_keys two_keys_store) - 1) div 4)"
    by (simp add: 2 3)
  from capacity_kept_unless_quarter [OF 1 _ this] 2 3 show ?thesis by simp
qed

text \<open>
  C6 (the vacated slot is cleared) does not hold of the code: \<open>delMin\<close> assigns
  \<open>pq[n+1] = pq[n]\<close>, so after inserting 1, 2 and extracting once the vacated slot 2
  holds the key 2, and after extracting again the empty queue still holds key 2 there.
\<close>

theorem vacated_slot_keeps_reference:
  "map_option (\<lambda>(rs, h, s). (last rs, n h, arr_get (this_pq h s) (of_nat (n h) + 1), elems (this_pq h s)))
     (scenario num_asc None [Insert 1, Insert 2, ExtractMin])
   = Some (Inr (Some 1), 1, Some 2, [None, Some 2, Some 2, None]) \<and>
   map_option (\<lambda>(rs, h, s). (last rs, n h, elems (this_pq h s)))
     (scenario num_asc None [Insert 1, Insert 2, ExtractMin, ExtractMin])
   = Some (Inr (Some 2), 0, [None, None, Some 2, None])"
  by (simp add: run_defs cong: run_congs)

text \<open>
  C7. For a queue \<open>a\<close> whose array is an allocated object, \<open>copy\<close> returns a queue
  \<open>b\<close> whose array is a new object (a reference other than that of \<open>a\<close>) with the same
  elements at the same positions, the same count and the same comparator, and leaves the
  array of \<open>a\<close> as it was. Whatever calls of \<open>insert\<close> and \<open>delMin\<close> are then made on
  \<open>a\<close>, the array of \<open>b\<close> is unchanged, and the other way round. (The count of a queue
  is a field of its own object, which no call on another queue assigns.)
\<close>

theorem copy_is_independent:
  assumes "pq a < next_addr s"
  shows "\<exists>b s1. copy_pq a s = (Inr b, s1) \<and> pq b \<noteq> pq a \<and>
           elems (this_pq b s1) = elems (this_pq a s) \<and> this_pq a s1 = this_pq a s \<and>
           n b = n a \<and> comparator b = comparator a \<and>
           (\<forall>cs. \<exists>rs a' s2. calls a cs s1 = Some (rs, a', s2) \<and> this_pq b s2 = this_pq b s1) \<and>
           (\<forall>cs. \<exists>rs b' s2. calls b cs s1 = Some (rs, b', s2) \<and> this_pq a s2 = this_pq a s1)"
proof -
  define b where "b = \<lparr>pq = Suc (next_addr s), n = n a, comparator = comparator a\<rparr>"
  define s1 where "s1 = s\<lparr>arrays := (arrays s)(next_addr s := \<lparr>elems = [None], props = []\<rparr>,
                              Suc (next_addr s) := spread (this_pq a s)),
        next_addr := Suc (Suc (next_addr s))\<rparr>"
  have c: "copy_pq a s = (Inr b, s1)"
    using assms by (simp add: copy_pq_eq b_def s1_def)
  have wa: "pq a < next_addr s1" and wb: "pq b < next_addr s1" and ne: "pq b \<noteq> pq a"
    using assms by (simp_all add: b_def s1_def)
  have "\<exists>rs a' s2. calls a cs s1 = Some (rs, a', s2) \<and> this_pq b s2 = this_pq b s1" for cs
    using calls_frame [OF wa, of cs] wb ne by (auto simp: this_pq_def)
  moreover have "\<exists>rs b' s2. calls b cs s1 = Some (rs, b', s2) \<and> this_pq a s2 = this_pq a s1" for cs
    using calls_frame [OF wb, of cs] wa ne by (auto simp: this_pq_def)
  moreover have "elems (this_pq b s1) = elems (this_pq a s)" "this_pq a s1 = this_pq a s"
    "n b = n a" "comparator b = comparator a"
    using assms by (simp_all add: b_def s1_def this_pq_def spread_def)
  ultimately show ?thesis using c ne by blast
qed

theorem copy_is_independent_witness:
  "pq two_keys < next_addr two_keys_store \<and>
   (\<exists>b s1. copy_pq two_keys two_keys_store = (Inr b, s1) \<and> pq b \<noteq> pq two_keys \<and>
      elems (this_pq b s1) = [None, Some 1, Some 2, None] \<and> n b = 2 \<and>
      (\<exists>rs a' s2. calls two_keys [ExtractMin, Insert 7] s1 = Some (rs, a', s2) \<and>
         this_pq b s2 = this_pq b s1))"
proof -
  have 1: "pq two_keys < next_addr two_keys_store"
    by (simp add: two_keys_def two_keys_store_def)
  have 2: "elems (this_pq two_keys two_keys_store) = [None, Some 1, Some 2, None]" "n two_keys = 2"
    by (simp_all add: two_keys_def two_keys_store_def this_pq_def)
  from copy_is_independent [OF 1] obtain b s1 where
    b: "copy_pq two_keys two_keys_store = (Inr b, s1)" "pq b \<noteq> pq two_keys"
       "elems (this_pq b s1) = elems (this_pq two_keys two_keys_store)" "n b = n two_keys"
       "\<forall>cs. \<exists>rs a' s2. calls two_keys cs s1 = Some (rs, a', s2) \<and> this_pq b s2 = this_pq b s1"
    by blast
  from b(5) have "\<exists>rs a' s2. calls two_keys [ExtractMin, Insert 7] s1 = Some (rs, a', s2) \<and>
         this_pq b s2 = this_pq b s1"
    by (rule spec)
  moreover from b(3,4) 2 have "elems (this_pq b s1) = [None, Some 1, Some 2, None]" "n b = 2"
    by (simp_all only:)
  ultimately show ?thesis using 1 b(1,2) by blast
qed

text \<open>
  C8. A traversal of a queue whose array is an allocated object returns with the fields
  of the queue as they were (so \<open>size\<close> is unchanged) and with the array of the queue as
  it was, so \<open>min\<close> returns the same result; a second traversal from the state the first
  one left yields the same sequence and ends the same way.
\<close>

theorem traversal_leaves_heap:
  assumes "pq h < next_addr s"
  shows "\<exists>ys e s1. iterator h s = Some ((ys, e), h, s1) \<and> this_pq h s1 = this_pq h s \<and>
           min_pq h s1 = (fst (min_pq h s), h, s1) \<and>
           (\<exists>s2. iterator h s1 = Some ((ys, e), h, s2))"
proof -
  define c where "c = \<lparr>pq = Suc (next_addr s), n = n h, comparator = comparator h\<rparr>"
  define s' where "s' = s\<lparr>arrays := (arrays s)(next_addr s := \<lparr>elems = [None], props = []\<rparr>,
                              Suc (next_addr s) := spread (this_pq h s)),
        next_addr := Suc (Suc (next_addr s))\<rparr>"
  have cp: "copy_pq h s = (Inr c, s')" using assms by (simp add: copy_pq_eq c_def s'_def)
  from drain_same_view [of c c s' s'] obtain ys e t where
    d: "drain c s' = Some (ys, e, t)" "next_addr t = next_addr s'"
       "\<forall>p. p \<noteq> pq c \<longrightarrow> arrays t p = arrays s' p"
    by auto
  have it: "iterator h s = Some ((ys, e), h, t)" using cp d(1) by (simp add: iterator_def)
  have same: "this_pq h t = this_pq h s"
    using d(3) assms by (simp add: this_pq_def c_def s'_def)
  have wf: "pq h < next_addr t" using d(2) assms by (simp add: s'_def)
  define c2 where "c2 = \<lparr>pq = Suc (next_addr t), n = n h, comparator = comparator h\<rparr>"
  define t' where "t' = t\<lparr>arrays := (arrays t)(next_addr t := \<lparr>elems = [None], props = []\<rparr>,
                              Suc (next_addr t) := spread (this_pq h t)),
        next_addr := Suc (Suc (next_addr t))\<rparr>"
  have cp2: "copy_pq h t = (Inr c2, t')" using wf by (simp add: copy_pq_eq c2_def t'_def)
  have "this_pq c2 t' = this_pq c s'" "n c2 = n c" "comparator c2 = comparator c"
    using same by (simp_all add: c2_def t'_def c_def s'_def this_pq_def)
  from drain_same_view [OF this(2,3,1)] d(1) obtain u where "drain c2 t' = Some (ys, e, u)"
    by auto
  with cp2 have it2: "iterator h t = Some ((ys, e), h, u)" by (simp add: iterator_def)
  have "min_pq h t = (fst (min_pq h s), h, t)" using same by (simp add: min_pq_def)
  with it it2 same show ?thesis by auto
qed

theorem traversal_leaves_heap_witness:
  "pq two_keys < next_addr two_keys_store \<and>
   (\<exists>ys e s1. iterator two_keys two_keys_store = Some ((ys, e), two_keys, s1) \<and>
      this_pq two_keys s1 = this_pq two_keys two_keys_store \<and>
      (\<exists>s2. iterator two_keys s1 = Some ((ys, e), two_keys, s2)))"
proof -
  have 1: "pq two_keys < next_addr two_keys_store"
    by (simp add: two_keys_def two_keys_store_def)
  from traversal_leaves_heap [OF 1] 1 show ?thesis by blast
qed

text \<open>
  C9. Every operation terminates for every comparator, consistent or not: the \<open>swim\<close>
  loop from any index, the \<open>sink\<close> loop as \<open>delMin\<close> starts it (at the root), and with
  them \<open>insert\<close>, \<open>delMin\<close> and a whole traversal return. (\<open>min\<close> has no loop.)
\<close>
theorem operations_terminate:
  "(\<exists>a'. swim cmp a k = Some a') \<and> (\<exists>a'. sink cmp m a 1 = Some a') \<and>
   (\<exists>r. insert_pq h x s = Some r) \<and> (\<exists>r. delMin h s = Some r) \<and>
   (\<exists>r. iterator h s = Some r)"
proof -
  have "\<exists>a'. sink cmp m a 1 = Some a'" using sink_terminates_alen [of 1 cmp m a] by auto
  moreover have "\<exists>r. insert_pq h x s = Some r" using insert_pq_frame [of h x s] by blast
  moreover have "\<exists>r. delMin h s = Some r" using delMin_frame [of h s] by blast
  ultimately show ?thesis using swim_terminates iterator_terminates by blast
qed

text \<open>
  C10 (on every queue with count above 0, \<open>delMin\<close> returns the value \<open>min\<close> returns)
  does not hold of the code. On a queue constructed with capacity 5 that holds the keys
  1, 2, a valid heap, \<open>min\<close> returns 1; \<open>delMin\<close> on the same state removes the root
  and then its shrink test \<open>1 == (5 - 1) / 4\<close> holds, \<open>resize(5 / 2)\<close> calls
  \<open>new Array(2.5)\<close> and the call throws RangeError instead of returning 1, leaving the
  count 1 and the array \<open>[_, 2, 2, _, _]\<close>.
\<close>

theorem delMin_throws_where_min_returns:
  "(case scenario num_asc (Some 5) [Insert 1, Insert 2] of
      None \<Rightarrow> None
    | Some (rs, h, s) \<Rightarrow>
        map_option
          (\<lambda>(r, h1, s1). (n h, heap_invariant h s, fst (min_pq h s), r, n h1, elems (this_pq h1 s1)))
          (delMin h s))
   = Some (2, True, Inr (Some 1), Inl RangeError, 1, [None, Some 2, Some 2, None, None])"
  by (simp add: run_defs min_pq_def cong: run_congs)

end
